theory Spec2Isabelle
  imports Main "HOL-Library.Sublist" "HOL-Library.Multiset"
begin

section \<open>The array bundle\<close>

text \<open>
  The notebooks load one archive with \<^verbatim>\<open>np.load('./resources/newsgroup.npz')\<close> and
  read it by key. An array is a nest of dimensions over items; the items of one bundle
  share the type \<open>'a\<close> (a sum type where the archive mixes floats, integers and names).
\<close>

datatype 'a ndarray = Item 'a | Dim "'a ndarray list"

type_synonym 'a npz = "string \<rightharpoonup> 'a ndarray"

datatype error =
    AssertionError string
  | KeyError string
  | IndexError string
  | ValueError string

text \<open>\<^verbatim>\<open>newsgroups[key]\<close>: a key that is not in the archive raises KeyError.\<close>

definition getitem :: "'a npz \<Rightarrow> string \<Rightarrow> error + 'a ndarray" where
  "getitem newsgroups key =
     (case newsgroups key of None \<Rightarrow> Inl (KeyError key) | Some a \<Rightarrow> Inr a)"

text \<open>\<^verbatim>\<open>a.shape\<close>: the tuple of dimension lengths, read along the first entries.\<close>

fun shape :: "'a ndarray \<Rightarrow> nat list" where
  "shape (Item v) = []"
| "shape (Dim []) = [0]"
| "shape (Dim (a # as)) = Suc (length as) # shape a"

text \<open>\<^verbatim>\<open>t[i]\<close> on a tuple, for a non-negative index.\<close>

definition tuple_index :: "nat list \<Rightarrow> nat \<Rightarrow> error + nat" where
  "tuple_index t i =
     (if i < length t then Inr (t ! i) else Inl (IndexError ''tuple index out of range''))"

text \<open>
  \<^verbatim>\<open>'%s_data' % dataset\<close>: the first \<^verbatim>\<open>%s\<close> of the pattern is replaced by
  the argument. Both patterns of the notebooks hold exactly one \<^verbatim>\<open>%s\<close>.
\<close>

fun format_s :: "string \<Rightarrow> string \<Rightarrow> string" where
  "format_s (c # d # rest) arg =
     (if c = CHR ''%'' \<and> d = CHR ''s'' then arg @ rest else c # format_s (d # rest) arg)"
| "format_s [c] arg = [c]"
| "format_s [] arg = []"

section \<open>The notebook cells\<close>

text \<open>\<^verbatim>\<open>batch_size = 100\<close>\<close>

definition batch_size :: nat where
  "batch_size = 100"

text \<open>\<^verbatim>\<open>num_classes = newsgroups['labels'].shape[0]\<close>\<close>

definition num_classes :: "'a npz \<Rightarrow> error + nat" where
  "num_classes newsgroups =
     (case getitem newsgroups ''labels'' of
        Inl e \<Rightarrow> Inl e
      | Inr labels \<Rightarrow> tuple_index (shape labels) 0)"

text \<open>
  The value \<^verbatim>\<open>tf.estimator.inputs.numpy_input_fn(...)\<close> returns is an input function
  closed over its arguments; the record keeps the five arguments the notebooks pass.
  \<^verbatim>\<open>x\<close> is a dictionary with the one column \<^verbatim>\<open>'input_data'\<close>;
  \<^verbatim>\<open>num_epochs=None\<close> is \<open>None\<close>.
\<close>

record 'a numpy_input_fn =
  fn_x :: "(string \<times> 'a ndarray) list"
  fn_y :: "'a ndarray"
  fn_batch_size :: nat
  fn_num_epochs :: "nat option"
  fn_shuffle :: bool

text \<open>
  \<^verbatim>\<open>def dataset_input_fn(dataset)\<close>, the same in both notebooks: the assertion on the
  split name, then the two lookups in argument order, then the input function.
\<close>

definition dataset_input_fn :: "'a npz \<Rightarrow> string \<Rightarrow> error + 'a numpy_input_fn" where
  "dataset_input_fn newsgroups dataset =
     (if dataset \<notin> set [''train'', ''test'']
      then Inl (AssertionError ''The selected dataset should be `train` or `test`'')
      else
        case getitem newsgroups (format_s ''%s_data'' dataset) of
          Inl e \<Rightarrow> Inl e
        | Inr data \<Rightarrow>
            (case getitem newsgroups (format_s ''%s_target'' dataset) of
               Inl e \<Rightarrow> Inl e
             | Inr target \<Rightarrow>
                 Inr \<lparr>fn_x = [(''input_data'', data)],
                      fn_y = target,
                      fn_batch_size = batch_size,
                      fn_num_epochs = (if dataset = ''test'' then Some 1 else None),
                      fn_shuffle = (dataset = ''train'')\<rparr>))"

text \<open>
  The number of distinct values that occur in the two target vectors, as the spec
  words the class count a reimplementation should use; it is compared with
  \<open>num_classes\<close> below and is not part of the notebooks.
\<close>

definition entries :: "'a ndarray option \<Rightarrow> 'a ndarray list" where
  "entries a = (case a of None \<Rightarrow> [] | Some (Item v) \<Rightarrow> [Item v] | Some (Dim xs) \<Rightarrow> xs)"

definition distinct_target_values :: "'a npz \<Rightarrow> nat" where
  "distinct_target_values newsgroups =
     length (remdups (entries (newsgroups ''train_target'') @ entries (newsgroups ''test_target'')))"

text \<open>
  The synthetic bundle of the spec's end-to-end scenario (four samples of embedding
  dimension two), with the same rows as test split and the two class labels.
\<close>

definition synthetic_bundle :: "int npz" where
  "synthetic_bundle =
     map_of
       [(''train_data'', Dim [Dim [Item 0, Item 0], Dim [Item 0, Item 1],
                              Dim [Item 1, Item 0], Dim [Item 1, Item 1]]),
        (''train_target'', Dim [Item 0, Item 1, Item 1, Item 0]),
        (''test_data'', Dim [Dim [Item 0, Item 0], Dim [Item 0, Item 1],
                             Dim [Item 1, Item 0], Dim [Item 1, Item 1]]),
        (''test_target'', Dim [Item 0, Item 1, Item 1, Item 0]),
        (''labels'', Dim [Item 0, Item 1])]"

section \<open>The batch iterator behind the input function\<close>

text \<open>
  What an input function yields when an estimator calls it is decided inside
  \<^verbatim>\<open>tf.estimator.inputs.numpy_input_fn\<close>, which the notebooks import and do not
  contain. The definitions of this section follow the iterator contract of the spec
  (section 4.1) and read the five arguments that \<open>dataset_input_fn\<close> fixes. A batch is
  listed sample by sample, a feature row paired with its label.
\<close>

type_synonym 'a sample = "'a ndarray \<times> 'a ndarray"

text \<open>
  Modelled from the spec: the source of randomness behind "each full pass is presented
  in a uniformly randomized sample order (re-shuffled per pass)"; the library's random
  generator is missing. Pass \<open>e\<close> reads its draws from \<open>g e\<close>.
\<close>

type_synonym random_source = "nat \<Rightarrow> nat \<Rightarrow> nat"

text \<open>
  Modelled from the spec: the shuffle of one pass (the library's shuffling is missing).
  Every row is inserted at a drawn position among the rows placed before it, so the
  result is a reordering of the rows, whatever the draws are.
\<close>

definition insert_at :: "nat \<Rightarrow> 'r \<Rightarrow> 'r list \<Rightarrow> 'r list" where
  "insert_at i x ys = take i ys @ x # drop i ys"

fun shuffle_rows :: "(nat \<Rightarrow> nat) \<Rightarrow> 'r list \<Rightarrow> 'r list" where
  "shuffle_rows draw [] = []"
| "shuffle_rows draw (x # xs) =
     insert_at (draw (length xs) mod Suc (length xs)) x (shuffle_rows draw xs)"

text \<open>
  Modelled from the spec: the batching of one pass (the library's batching is missing):
  batches of \<open>n\<close> samples, "the final batch of a pass may be shorter than batch_size if
  the sample count is not an exact multiple".
\<close>

function chunks :: "nat \<Rightarrow> 'r list \<Rightarrow> 'r list list" where
  "chunks n xs = (if n = 0 \<or> xs = [] then [] else take n xs # chunks n (drop n xs))"
  by pat_completeness auto
termination
  by (relation "measure (\<lambda>(n, xs). length xs)") auto

declare chunks.simps [simp del]

text \<open>
  Modelled from the spec: the samples of an array are its entries along the first
  dimension (the library's reading of the arrays is missing). An array without
  dimensions has no samples; the spec leaves malformed arrays open, and the model
  refuses them.
\<close>

fun rows_of :: "'a ndarray \<Rightarrow> error + 'a ndarray list" where
  "rows_of (Dim xs) = Inr xs"
| "rows_of (Item v) = Inl (ValueError ''array without a sample dimension'')"

text \<open>
  Modelled from the spec: the state of a running iterator (the library's queue is
  missing): the arguments it was built from, the number of passes started, and "its
  position within the current pass" as the batches of that pass still to be handed out.
\<close>

record 'a cursor =
  cur_rows :: "'a sample list"
  cur_batch_size :: nat
  cur_num_epochs :: "nat option"
  cur_shuffle :: bool
  cur_epoch :: nat
  cur_pending :: "'a sample list list"

text \<open>
  Modelled from the spec: the call of the input function by an estimator (missing
  library code). The spec's data model has one feature column, labels "aligned
  row-for-row" with the features and a batch size fixed at construction; outside it the
  spec leaves the behaviour open, and the model refuses the input function.
\<close>

definition start_iterator :: "'a numpy_input_fn \<Rightarrow> error + 'a cursor" where
  "start_iterator fn =
     (case fn_x fn of
        [(column, a)] \<Rightarrow>
          (case rows_of a of
             Inl e \<Rightarrow> Inl e
           | Inr X \<Rightarrow>
               (case rows_of (fn_y fn) of
                  Inl e \<Rightarrow> Inl e
                | Inr Y \<Rightarrow>
                    if length X \<noteq> length Y
                    then Inl (ValueError ''features and labels are not aligned'')
                    else if fn_batch_size fn = 0
                    then Inl (ValueError ''batch size is not positive'')
                    else Inr \<lparr>cur_rows = zip X Y,
                              cur_batch_size = fn_batch_size fn,
                              cur_num_epochs = fn_num_epochs fn,
                              cur_shuffle = fn_shuffle fn,
                              cur_epoch = 0,
                              cur_pending = []\<rparr>))
      | _ \<Rightarrow> Inl (ValueError ''one feature column expected''))"

text \<open>
  Modelled from the spec: the rows of pass \<open>e\<close> (missing library code), shuffled for an
  iterator built with \<^verbatim>\<open>shuffle=True\<close> and in stored order otherwise.
\<close>

definition pass_rows :: "random_source \<Rightarrow> 'a cursor \<Rightarrow> nat \<Rightarrow> 'a sample list" where
  "pass_rows g c e = (if cur_shuffle c then shuffle_rows (g e) (cur_rows c) else cur_rows c)"

text \<open>Modelled from the spec: the batches of pass \<open>e\<close> (missing library code).\<close>

definition pass_batches :: "random_source \<Rightarrow> 'a cursor \<Rightarrow> nat \<Rightarrow> 'a sample list list" where
  "pass_batches g c e = chunks (cur_batch_size c) (pass_rows g c e)"

text \<open>
  Modelled from the spec: whether another pass may start (missing library code):
  always for \<^verbatim>\<open>num_epochs=None\<close> ("sequence is infinite"), and below the number of
  epochs otherwise.
\<close>

definition more_passes :: "'a cursor \<Rightarrow> bool" where
  "more_passes c = (case cur_num_epochs c of None \<Rightarrow> True | Some m \<Rightarrow> cur_epoch c < m)"

text \<open>
  Modelled from the spec: one request for a batch (missing library code). The pending
  batches of the current pass go first; then the next pass starts ("wraps around after
  exhausting all samples"). \<open>None\<close> is the end of the sequence; a split without rows
  has no batch to give, in any pass.
\<close>

definition next_batch ::
  "random_source \<Rightarrow> 'a cursor \<Rightarrow> ('a sample list \<times> 'a cursor) option" where
  "next_batch g c =
     (case cur_pending c of
        b # bs \<Rightarrow> Some (b, c\<lparr>cur_pending := bs\<rparr>)
      | [] \<Rightarrow>
          if more_passes c
          then (case pass_batches g c (cur_epoch c) of
                  [] \<Rightarrow> None
                | b # bs \<Rightarrow> Some (b, c\<lparr>cur_epoch := Suc (cur_epoch c), cur_pending := bs\<rparr>))
          else None)"

text \<open>
  Modelled from the spec: a consumer that "consumes the entire iterator exactly once"
  (missing library code): it requests batches until the sequence ends. On an infinite
  sequence the loop does not return, which is the value \<open>None\<close>.
\<close>

partial_function (option) drain ::
  "random_source \<Rightarrow> 'a cursor \<Rightarrow> 'a sample list list \<Rightarrow> 'a sample list list option" where
  "drain g c acc =
     (case next_batch g c of
        None \<Rightarrow> Some (rev acc)
      | Some (b, c') \<Rightarrow> drain g c' (b # acc))"

text \<open>
  Modelled from the spec: all the batches of an input function, from its start to the
  end of the sequence (missing library code).
\<close>

definition all_batches ::
  "random_source \<Rightarrow> 'a numpy_input_fn \<Rightarrow> (error + 'a sample list list) option" where
  "all_batches g fn =
     (case start_iterator fn of
        Inl e \<Rightarrow> Some (Inl e)
      | Inr c \<Rightarrow> map_option Inr (drain g c []))"

text \<open>
  Modelled from the spec: a consumer that requests at most \<open>k\<close> batches (missing
  library code); it returns the batches it got and the iterator as it left it.
\<close>

fun pull ::
  "random_source \<Rightarrow> nat \<Rightarrow> 'a cursor \<Rightarrow> 'a sample list list \<times> 'a cursor" where
  "pull g 0 c = ([], c)"
| "pull g (Suc k) c =
     (case next_batch g c of
        None \<Rightarrow> ([], c)
      | Some (b, c') \<Rightarrow> (case pull g k c' of (bs, c'') \<Rightarrow> (b # bs, c'')))"

text \<open>
  The invariant of a running iterator that the proofs below carry: no pending batch is
  empty or longer than the batch size.
\<close>

definition batches_ok :: "'a cursor \<Rightarrow> bool" where
  "batches_ok c =
     list_all (\<lambda>b. 0 < length b \<and> length b \<le> cur_batch_size c) (cur_pending c)"

text \<open>
  The batches an iterator has still to give, written out for the proofs below: the
  pending batches of the current pass, then the batches of the passes that follow, up
  to the last epoch, or \<open>k\<close> passes ahead for an iterator without a last epoch.
\<close>

definition upcoming :: "random_source \<Rightarrow> 'a cursor \<Rightarrow> nat \<Rightarrow> 'a sample list list" where
  "upcoming g c k =
     cur_pending c @
     concat (map (pass_batches g c)
       [cur_epoch c ..< (case cur_num_epochs c of None \<Rightarrow> cur_epoch c + k | Some m \<Rightarrow> m)])"

text \<open>
  A bundle whose splits hold 101 rows each: one pass is a full batch and a short one.
\<close>

definition uneven_bundle :: "int npz" where
  "uneven_bundle =
     map_of
       [(''train_data'', Dim (replicate 101 (Dim [Item 0, Item 1]))),
        (''train_target'', Dim (replicate 101 (Item 0))),
        (''test_data'', Dim (replicate 101 (Dim [Item 0, Item 1]))),
        (''test_target'', Dim (replicate 101 (Item 0))),
        (''labels'', Dim [Item 0])]"

section \<open>Properties of the notebook cells\<close>

lemma format_s_data [simp]: "format_s ''%s_data'' d = d @ ''_data''"
  by simp

lemma format_s_target [simp]: "format_s ''%s_target'' d = d @ ''_target''"
  by simp

text \<open>
  Claim C1, as the code has it. For every split name other than \<open>train\<close> and
  \<open>test\<close>, and for every bundle (also one that holds no array at all),
  \<open>dataset_input_fn\<close> fails on its assertion, before any lookup in the bundle and
  before an input function exists, so no batch can be produced. The error carries the
  fixed message of the assertion, which is the same for every invalid name.
\<close>

theorem invalid_split_fails_on_assertion:
  assumes "dataset \<notin> {''train'', ''test''}"
  shows "dataset_input_fn newsgroups dataset =
           Inl (AssertionError ''The selected dataset should be `train` or `test`'')"
  using assms by (simp add: dataset_input_fn_def)

theorem invalid_split_fails_on_assertion_witness:
  "''validation'' \<notin> {''train'', ''test''} \<and>
   dataset_input_fn (Map.empty :: int npz) ''validation'' =
     Inl (AssertionError ''The selected dataset should be `train` or `test`'')"
  using invalid_split_fails_on_assertion [of "''validation''" "Map.empty :: int npz"]
  by simp

text \<open>
  The message of that error does not identify the invalid value: the name
  \<open>validation\<close> does not occur in it, and the name \<open>dev\<close> fails with the very
  same error.
\<close>

theorem invalid_split_message_counterexample:
  "dataset_input_fn synthetic_bundle ''validation'' =
     Inl (AssertionError ''The selected dataset should be `train` or `test`'') \<and>
   dataset_input_fn synthetic_bundle ''dev'' = dataset_input_fn synthetic_bundle ''validation'' \<and>
   \<not> sublist ''validation'' ''The selected dataset should be `train` or `test`''"
  by (simp add: dataset_input_fn_def sublist_Cons_right prefix_Cons)

text \<open>
  Claim C9. The class count of the notebooks is the length of the stored \<open>labels\<close>
  array: it does not change when the target vectors are replaced or removed, and it
  equals the number of distinct target values exactly when the \<open>labels\<close> array has
  that length.
\<close>

theorem num_classes_is_labels_length:
  assumes "newsgroups ''labels'' = Some (Dim L)"
  shows "num_classes newsgroups = Inr (length L) \<and>
         num_classes (newsgroups(''train_target'' := t, ''test_target'' := t')) = Inr (length L) \<and>
         (num_classes newsgroups = Inr (distinct_target_values newsgroups)
            \<longleftrightarrow> length L = distinct_target_values newsgroups)"
  using assms by (cases L) (simp_all add: num_classes_def getitem_def tuple_index_def)

theorem num_classes_is_labels_length_witness:
  "(synthetic_bundle(''labels'' \<mapsto> Dim [Item 0, Item 1, Item 2])) ''labels''
     = Some (Dim [Item 0, Item 1, Item 2]) \<and>
   num_classes (synthetic_bundle(''labels'' \<mapsto> Dim [Item 0, Item 1, Item 2])) = Inr 3 \<and>
   distinct_target_values (synthetic_bundle(''labels'' \<mapsto> Dim [Item 0, Item 1, Item 2])) = 2"
  using num_classes_is_labels_length
    [of "synthetic_bundle(''labels'' \<mapsto> Dim [Item 0, Item 1, Item 2])"
        "[Item 0, Item 1, Item 2]"]
  by (simp add: distinct_target_values_def entries_def synthetic_bundle_def)

text \<open>
  Claim C10. For a split name that passes the assertion, the two keys that
  \<open>dataset_input_fn\<close> builds are among \<open>train_data\<close>, \<open>test_data\<close>,
  \<open>train_target\<close> and \<open>test_target\<close>; so on every bundle that holds these four
  arrays the call returns an input function, and the KeyError branch of the lookups is
  not taken.
\<close>

theorem lookup_keys_present:
  assumes "dataset \<in> {''train'', ''test''}"
  shows "format_s ''%s_data'' dataset \<in> {''train_data'', ''test_data''} \<and>
         format_s ''%s_target'' dataset \<in> {''train_target'', ''test_target''} \<and>
         (\<forall>newsgroups :: 'a npz.
            {''train_data'', ''train_target'', ''test_data'', ''test_target''} \<subseteq> dom newsgroups
            \<longrightarrow> (\<exists>f. dataset_input_fn newsgroups dataset = Inr f))"
  using assms by (auto simp add: dataset_input_fn_def getitem_def split: option.splits)

theorem lookup_keys_present_witness:
  "''test'' \<in> {''train'', ''test''} \<and>
   format_s ''%s_data'' ''test'' = ''test_data'' \<and>
   format_s ''%s_target'' ''test'' = ''test_target'' \<and>
   {''train_data'', ''train_target'', ''test_data'', ''test_target''} \<subseteq> dom synthetic_bundle \<and>
   (\<exists>f. dataset_input_fn synthetic_bundle ''test'' = Inr f)"
proof -
  have d: "{''train_data'', ''train_target'', ''test_data'', ''test_target''}
             \<subseteq> dom synthetic_bundle"
    by (simp add: synthetic_bundle_def)
  have "\<exists>f. dataset_input_fn synthetic_bundle ''test'' = Inr f"
    using lookup_keys_present [of "''test''"] d by blast
  with d show ?thesis by simp
qed

section \<open>Properties of the batch iterator\<close>

subsection \<open>Batches of one pass\<close>

lemma concat_chunks: "0 < n \<Longrightarrow> concat (chunks n xs) = xs"
proof (induction n xs rule: chunks.induct)
  case (1 n xs)
  then show ?case by (subst chunks.simps) simp
qed

lemma nth_chunks: "i < length (chunks n xs) \<Longrightarrow> chunks n xs ! i = take n (drop (i * n) xs)"
proof (induction n xs arbitrary: i rule: chunks.induct)
  case (1 n xs)
  show ?case
  proof (cases "n = 0 \<or> xs = []")
    case True
    with 1(2) show ?thesis by (simp add: chunks.simps)
  next
    case False
    then have eq: "chunks n xs = take n xs # chunks n (drop n xs)"
      by (subst chunks.simps) simp
    show ?thesis
    proof (cases i)
      case 0
      then show ?thesis by (simp add: eq)
    next
      case (Suc j)
      with 1(2) eq have "j < length (chunks n (drop n xs))" by simp
      from 1(1) [OF False this] Suc show ?thesis by (simp add: eq add.commute)
    qed
  qed
qed

lemma length_chunks: "0 < n \<Longrightarrow> length (chunks n xs) = (length xs + (n - 1)) div n"
proof (induction n xs rule: chunks.induct)
  case (1 n xs)
  show ?case
  proof (cases "xs = []")
    case True
    with 1(2) show ?thesis by (subst chunks.simps) simp
  next
    case False
    with 1 have ih: "length (chunks n (drop n xs)) = (length xs - n + (n - 1)) div n" by simp
    have eq: "length (chunks n xs) = Suc (length (chunks n (drop n xs)))"
      using False 1(2) by (subst chunks.simps) simp
    show ?thesis
    proof (cases "n \<le> length xs")
      case True
      then have e: "length xs + (n - 1) = (length xs - n + (n - 1)) + n" by simp
      have h: "(length xs - n + (n - 1) + n) div n = Suc ((length xs - n + (n - 1)) div n)"
        using 1(2) by (simp only: div_add_self2 Suc_eq_plus1)
      have "(length xs + (n - 1)) div n = Suc ((length xs - n + (n - 1)) div n)"
        by (simp only: e h)
      with ih eq show ?thesis by simp
    next
      case False
      then have lt: "length xs < n" by simp
      from \<open>xs \<noteq> []\<close> have pos: "0 < length xs" by simp
      have e: "length xs + (n - 1) = (length xs - 1) + n" using pos 1(2) by arith
      have h: "(length xs - 1 + n) div n = Suc ((length xs - 1) div n)"
        using 1(2) by (simp only: div_add_self2 Suc_eq_plus1)
      have "(length xs + (n - 1)) div n = Suc ((length xs - 1) div n)"
        by (simp only: e h)
      moreover have "(length xs - 1) div n = 0" using lt by simp
      moreover have "length (chunks n (drop n xs)) = 0" using lt by (simp add: chunks.simps)
      ultimately show ?thesis using eq by simp
    qed
  qed
qed

lemma chunks_Nil: "chunks n xs = [] \<longleftrightarrow> n = 0 \<or> xs = []"
  by (subst chunks.simps) simp

lemma length_nth_chunks:
  "i < length (chunks n xs) \<Longrightarrow>
   length (chunks n xs ! i) =
     (if Suc i < length (chunks n xs) \<or> length xs mod n = 0 then n else length xs mod n)"
proof (induction n xs arbitrary: i rule: chunks.induct)
  case (1 n xs)
  show ?case
  proof (cases "n = 0 \<or> xs = []")
    case True
    with 1(2) show ?thesis by (simp add: chunks.simps)
  next
    case False
    then have eq: "chunks n xs = take n xs # chunks n (drop n xs)"
      by (subst chunks.simps) simp
    from False have n: "0 < n" and xs: "0 < length xs" by simp_all
    show ?thesis
    proof (cases i)
      case 0
      show ?thesis
      proof (cases "n < length xs")
        case True
        then have "chunks n (drop n xs) \<noteq> []" using n by (simp add: chunks_Nil)
        with 0 True show ?thesis by (simp add: eq)
      next
        case False
        then have e: "chunks n (drop n xs) = []" by (simp add: chunks_Nil)
        show ?thesis
        proof (cases "length xs = n")
          case True
          with 0 show ?thesis by (simp add: eq)
        next
          case neq: False
          with False have "length xs < n" by simp
          with 0 xs e show ?thesis by (simp add: eq)
        qed
      qed
    next
      case (Suc j)
      with 1(2) eq have j: "j < length (chunks n (drop n xs))" by simp
      then have "chunks n (drop n xs) \<noteq> []" by auto
      then have "drop n xs \<noteq> []" by (simp add: chunks_Nil)
      then have le: "n \<le> length xs" by simp
      then have m: "(length xs - n) mod n = length xs mod n" by (simp add: le_mod_geq)
      from 1(1) [OF False j] Suc m show ?thesis by (simp add: eq)
    qed
  qed
qed

lemma chunks_bounds: "b \<in> set (chunks n xs) \<Longrightarrow> 0 < length b \<and> length b \<le> n"
proof (induction n xs rule: chunks.induct)
  case (1 n xs)
  show ?case
  proof (cases "n = 0 \<or> xs = []")
    case True
    with 1(2) show ?thesis by (simp add: chunks.simps)
  next
    case False
    then have eq: "chunks n xs = take n xs # chunks n (drop n xs)"
      by (subst chunks.simps) simp
    with 1(2) have "b = take n xs \<or> b \<in> set (chunks n (drop n xs))" by simp
    then show ?thesis
    proof
      assume "b = take n xs"
      with False show ?thesis by simp
    next
      assume "b \<in> set (chunks n (drop n xs))"
      with 1(1) [OF False] show ?thesis .
    qed
  qed
qed

lemma length_insert_at: "length (insert_at i x ys) = Suc (length ys)"
  by (simp add: insert_at_def)

lemma length_shuffle_rows: "length (shuffle_rows draw xs) = length xs"
  by (induction xs) (simp_all add: length_insert_at)

lemma mset_insert_at: "mset (insert_at i x ys) = add_mset x (mset ys)"
proof -
  have "mset (take i ys) + mset (drop i ys) = mset (take i ys @ drop i ys)"
    by (simp only: mset_append)
  also have "\<dots> = mset ys"
    by (simp only: append_take_drop_id)
  finally have e: "mset (take i ys) + mset (drop i ys) = mset ys" .
  show ?thesis by (simp add: insert_at_def e)
qed

lemma mset_shuffle_rows: "mset (shuffle_rows draw xs) = mset xs"
  by (induction xs) (simp_all add: mset_insert_at)

lemma length_pass_rows: "length (pass_rows g c e) = length (cur_rows c)"
  by (simp add: pass_rows_def length_shuffle_rows)

lemma pass_batches_bounds:
  "b \<in> set (pass_batches g c e) \<Longrightarrow> 0 < length b \<and> length b \<le> cur_batch_size c"
  unfolding pass_batches_def by (rule chunks_bounds)

lemma next_batch_step:
  assumes "next_batch g c = Some (b, c')" and "batches_ok c"
  shows "cur_batch_size c' = cur_batch_size c \<and> batches_ok c' \<and>
         0 < length b \<and> length b \<le> cur_batch_size c"
proof (cases "cur_pending c")
  case Nil
  with assms(1) obtain bs where p: "pass_batches g c (cur_epoch c) = b # bs"
    and c': "c' = c\<lparr>cur_epoch := Suc (cur_epoch c), cur_pending := bs\<rparr>"
    by (auto simp add: next_batch_def split: if_splits list.splits)
  from p have "\<forall>x \<in> set (b # bs). 0 < length x \<and> length x \<le> cur_batch_size c"
    using pass_batches_bounds [of _ g c "cur_epoch c"] by simp
  with c' show ?thesis by (simp add: batches_ok_def list_all_iff)
next
  case (Cons x xs)
  with assms(1) have "b = x" and "c' = c\<lparr>cur_pending := xs\<rparr>"
    by (simp_all add: next_batch_def)
  with assms(2) Cons show ?thesis by (simp add: batches_ok_def)
qed

lemma pull_invariant:
  "batches_ok c \<Longrightarrow>
   cur_batch_size (snd (pull g k c)) = cur_batch_size c \<and>
   (\<forall>b \<in> set (fst (pull g k c)). 0 < length b \<and> length b \<le> cur_batch_size c)"
proof (induction k arbitrary: c)
  case 0
  then show ?case by simp
next
  case (Suc k)
  show ?case
  proof (cases "next_batch g c")
    case None
    then show ?thesis by simp
  next
    case (Some r)
    obtain b c' where r: "r = (b, c')" by (cases r)
    from next_batch_step [OF Some [unfolded r] Suc.prems]
    have s: "cur_batch_size c' = cur_batch_size c" "batches_ok c'"
      "0 < length b" "length b \<le> cur_batch_size c" by simp_all
    from Suc.IH [OF s(2)] s Some r show ?thesis
      by (simp add: split_beta)
  qed
qed

subsection \<open>The batches handed out are the batches of the passes\<close>

lemma pass_batches_Nil:
  "pass_batches g c e = [] \<longleftrightarrow> cur_batch_size c = 0 \<or> cur_rows c = []"
proof -
  have "pass_rows g c e = [] \<longleftrightarrow> cur_rows c = []"
    using length_pass_rows [of g c e] by (metis length_0_conv)
  then show ?thesis by (simp add: pass_batches_def chunks_Nil)
qed

lemma passes_all_empty:
  "pass_batches g c e = [] \<Longrightarrow> concat (map (pass_batches g c) es) = []"
  by (simp add: pass_batches_Nil)

lemma passes_enough:
  "pass_batches g c e \<noteq> [] \<Longrightarrow> k \<le> length (concat (map (pass_batches g c) [a ..< a + k]))"
proof (induction k)
  case 0
  then show ?case by simp
next
  case (Suc k)
  from Suc.prems have "pass_batches g c (a + k) \<noteq> []" by (simp add: pass_batches_Nil)
  then have p: "length (pass_batches g c (a + k)) \<noteq> 0" by simp
  have ih: "k \<le> length (concat (map (pass_batches g c) [a ..< a + k]))"
    using Suc by simp
  have "length (concat (map (pass_batches g c) [a ..< a + Suc k])) =
          length (concat (map (pass_batches g c) [a ..< a + k])) +
          length (pass_batches g c (a + k))"
    by simp
  with ih p show ?case by arith
qed

lemma pass_batches_pending [simp]:
  "pass_batches g (c\<lparr>cur_pending := p\<rparr>) = pass_batches g c"
  by (simp add: pass_batches_def pass_rows_def fun_eq_iff)

lemma pass_batches_epoch [simp]:
  "pass_batches g (c\<lparr>cur_epoch := n\<rparr>) = pass_batches g c"
  by (simp add: pass_batches_def pass_rows_def fun_eq_iff)

lemma take_passes_more:
  "take k (bs @ concat (map (pass_batches g c) [a ..< a + k])) =
   take k (bs @ concat (map (pass_batches g c) [a ..< a + Suc k]))"
proof (cases "pass_batches g c (a + k) = []")
  case True
  then show ?thesis by simp
next
  case False
  then have "k \<le> length (concat (map (pass_batches g c) [a ..< a + k]))"
    by (rule passes_enough)
  then show ?thesis by simp
qed

lemma pull_upcoming: "fst (pull g k c) = take k (upcoming g c k)"
proof (induction k arbitrary: c)
  case 0
  show ?case by simp
next
  case (Suc k)
  show ?case
  proof (cases "cur_pending c")
    case (Cons b bs)
    let ?c' = "c\<lparr>cur_pending := bs\<rparr>"
    have nb: "next_batch g c = Some (b, ?c')"
      using Cons by (simp add: next_batch_def)
    have ih: "fst (pull g k ?c') = take k (upcoming g ?c' k)" by (rule Suc.IH)
    have "take k (upcoming g ?c' k) = take k (bs @ concat (map (pass_batches g c)
        [cur_epoch c ..< (case cur_num_epochs c of None \<Rightarrow> cur_epoch c + Suc k | Some m \<Rightarrow> m)]))"
    proof (cases "cur_num_epochs c")
      case None
      then show ?thesis
        using take_passes_more [of k bs g c "cur_epoch c"] by (simp add: upcoming_def)
    next
      case (Some m)
      then show ?thesis by (simp add: upcoming_def)
    qed
    with ih nb Cons show ?thesis by (simp add: upcoming_def split_beta)
  next
    case Nil
    show ?thesis
    proof (cases "more_passes c")
      case False
      then have "next_batch g c = None" using Nil by (simp add: next_batch_def)
      moreover from False have "upcoming g c (Suc k) = []"
        using Nil by (simp add: upcoming_def more_passes_def split: option.splits)
      ultimately show ?thesis by simp
    next
      case True
      show ?thesis
      proof (cases "pass_batches g c (cur_epoch c)")
        case pn: Nil
        then have "next_batch g c = None" using Nil True by (simp add: next_batch_def)
        moreover have "upcoming g c (Suc k) = []"
          by (simp only: upcoming_def Nil passes_all_empty [OF pn] append_Nil)
        ultimately show ?thesis by simp
      next
        case (Cons b bs)
        let ?c' = "c\<lparr>cur_epoch := Suc (cur_epoch c), cur_pending := bs\<rparr>"
        have nb: "next_batch g c = Some (b, ?c')"
          using Nil True Cons by (simp add: next_batch_def)
        have ih: "fst (pull g k ?c') = take k (upcoming g ?c' k)" by (rule Suc.IH)
        let ?h = "case cur_num_epochs c of None \<Rightarrow> cur_epoch c + Suc k | Some m \<Rightarrow> m"
        have lt: "cur_epoch c < ?h"
          using True by (simp add: more_passes_def split: option.splits)
        then have "[cur_epoch c ..< ?h] = cur_epoch c # [Suc (cur_epoch c) ..< ?h]"
          by (rule upt_conv_Cons)
        then have up: "upcoming g c (Suc k) =
            b # bs @ concat (map (pass_batches g c) [Suc (cur_epoch c) ..< ?h])"
          using Nil Cons by (simp add: upcoming_def)
        have up': "upcoming g ?c' k = bs @ concat (map (pass_batches g c) [Suc (cur_epoch c) ..< ?h])"
          by (simp add: upcoming_def split: option.splits)
        from ih nb up up' show ?thesis by (simp add: split_beta)
      qed
    qed
  qed
qed

lemma concat_nonempty_length:
  "\<forall>b \<in> set bs. 0 < length b \<Longrightarrow> length bs \<le> length (concat bs)"
proof (induction bs)
  case Nil
  then show ?case by simp
next
  case (Cons b bs)
  then have "b \<noteq> []" and "length bs \<le> length (concat bs)" by simp_all
  then show ?case by (cases b) simp_all
qed

subsection \<open>The shuffle of a pass\<close>

lemma insert_at_nth: "i \<le> length ys \<Longrightarrow> insert_at i x ys ! i = x"
  by (simp add: insert_at_def nth_append)

lemma insert_at_position:
  assumes "x \<notin> set ys" and "i \<le> length ys" and "k \<le> length ys"
    and "insert_at i x ys ! k = x"
  shows "k = i"
proof (rule ccontr)
  assume ne: "k \<noteq> i"
  show False
  proof (cases "k < i")
    case True
    with assms(2,4) have "ys ! k = x" by (simp add: insert_at_def nth_append)
    moreover from True assms(2) have "k < length ys" by simp
    ultimately show False using assms(1) nth_mem by blast
  next
    case False
    with ne have gt: "i < k" by simp
    then obtain m where m: "k = Suc (i + m)" using less_imp_Suc_add by blast
    with assms(2,3,4) have "ys ! (i + m) = x"
      by (simp add: insert_at_def nth_append min_def)
    moreover from m assms(3) have "i + m < length ys" by simp
    ultimately show False using assms(1) nth_mem by blast
  qed
qed

lemma remove1_insert_at: "x \<notin> set ys \<Longrightarrow> remove1 x (insert_at i x ys) = ys"
proof -
  assume a: "x \<notin> set ys"
  then have "x \<notin> set (take i ys)" by (meson in_set_takeD)
  then show ?thesis by (simp add: insert_at_def remove1_append)
qed

lemma insert_at_inject:
  assumes "x \<notin> set ys" and "x \<notin> set zs" and "i \<le> length ys" and "j \<le> length zs"
    and "insert_at i x ys = insert_at j x zs"
  shows "i = j \<and> ys = zs"
proof -
  have "ys = remove1 x (insert_at i x ys)" using assms(1) by (simp add: remove1_insert_at)
  also have "\<dots> = remove1 x (insert_at j x zs)" by (simp only: assms(5))
  also have "\<dots> = zs" using assms(2) by (simp add: remove1_insert_at)
  finally have eq: "ys = zs" .
  have "insert_at i x ys ! j = x"
    using assms(4) by (simp only: assms(5) insert_at_nth)
  with assms(1,3,4) eq have "j = i" by (intro insert_at_position [of x ys i j]) simp_all
  with eq show ?thesis by simp
qed

lemma set_shuffle_rows: "set (shuffle_rows draw xs) = set xs"
  using mset_shuffle_rows [of draw xs] by (rule mset_eq_setD)

lemma shuffle_rows_cong:
  "(\<forall>j < length xs. d j mod Suc j = d' j mod Suc j) \<Longrightarrow> shuffle_rows d xs = shuffle_rows d' xs"
  by (induction xs) simp_all

lemma shuffle_rows_inject:
  "distinct xs \<Longrightarrow> shuffle_rows d xs = shuffle_rows d' xs \<Longrightarrow>
   (\<forall>j < length xs. d j mod Suc j = d' j mod Suc j)"
proof (induction xs)
  case Nil
  then show ?case by simp
next
  case (Cons x xs)
  let ?i = "d (length xs) mod Suc (length xs)"
  let ?j = "d' (length xs) mod Suc (length xs)"
  from Cons.prems(1) have nx: "x \<notin> set (shuffle_rows d xs)" "x \<notin> set (shuffle_rows d' xs)"
    by (simp_all add: set_shuffle_rows)
  have li: "?i \<le> length (shuffle_rows d xs)" and lj: "?j \<le> length (shuffle_rows d' xs)"
    by (simp_all add: length_shuffle_rows less_Suc_eq_le [symmetric])
  from Cons.prems(2)
  have "insert_at ?i x (shuffle_rows d xs) = insert_at ?j x (shuffle_rows d' xs)" by simp
  from insert_at_inject [OF nx li lj this]
  have ij: "?i = ?j" and eq: "shuffle_rows d xs = shuffle_rows d' xs" by simp_all
  from Cons.IH [OF _ eq] Cons.prems(1)
  have "\<forall>j < length xs. d j mod Suc j = d' j mod Suc j" by simp
  with ij show ?case by (simp add: less_Suc_eq)
qed

lemma shuffle_rows_onto: "mset p = mset xs \<Longrightarrow> \<exists>d. shuffle_rows d xs = p"
proof (induction xs arbitrary: p)
  case Nil
  then show ?case by simp
next
  case (Cons x xs)
  then have "x \<in> set p" by (metis list.set_intros(1) mset_eq_setD)
  then obtain as bs where p: "p = as @ x # bs" by (meson split_list)
  with Cons.prems have m: "mset (as @ bs) = mset xs" by simp
  then obtain d' where d': "shuffle_rows d' xs = as @ bs" using Cons.IH by blast
  from m have len: "length as + length bs = length xs"
    using mset_eq_length by fastforce
  let ?d = "d'(length xs := length as)"
  have "shuffle_rows ?d xs = shuffle_rows d' xs" by (rule shuffle_rows_cong) simp
  moreover have "?d (length xs) mod Suc (length xs) = length as" using len by simp
  ultimately have "shuffle_rows ?d (x # xs) = insert_at (length as) x (as @ bs)"
    using d' by simp
  then have "shuffle_rows ?d (x # xs) = p" by (simp add: insert_at_def p)
  then show ?case by blast
qed

lemma insert_at_map: "insert_at i (f x) (map f ys) = map f (insert_at i x ys)"
  by (simp add: insert_at_def take_map drop_map)

lemma shuffle_rows_map: "shuffle_rows d (map f xs) = map f (shuffle_rows d xs)"
  by (induction xs) (simp_all add: insert_at_map)

lemma shuffle_rows_positions:
  "shuffle_rows d xs = map ((!) xs) (shuffle_rows d [0 ..< length xs])"
proof -
  have "shuffle_rows d (map ((!) xs) [0 ..< length xs]) =
          map ((!) xs) (shuffle_rows d [0 ..< length xs])"
    by (rule shuffle_rows_map)
  then show ?thesis by (simp only: map_nth)
qed

subsection \<open>Consuming a finite sequence\<close>

lemma drain_pending:
  "\<not> more_passes c \<Longrightarrow> drain g c acc = Some (rev acc @ cur_pending c)"
proof (induction "cur_pending c" arbitrary: c acc)
  case Nil
  then show ?case by (subst drain.simps) (simp add: next_batch_def)
next
  case (Cons b bs)
  let ?c' = "c\<lparr>cur_pending := bs\<rparr>"
  have nb: "next_batch g c = Some (b, ?c')"
    using Cons.hyps(2) [symmetric] by (simp add: next_batch_def)
  have "\<not> more_passes ?c'" using Cons.prems by (simp add: more_passes_def split: option.splits)
  moreover have "bs = cur_pending ?c'" by simp
  ultimately have "drain g ?c' (b # acc) = Some (rev (b # acc) @ cur_pending ?c')"
    by (rule Cons.hyps(1) [rotated])
  with nb Cons.hyps(2) [symmetric] show ?case by (subst drain.simps) simp
qed

lemma drain_last_pass:
  assumes "cur_pending c = []" and "cur_num_epochs c = Some (Suc (cur_epoch c))"
  shows "drain g c [] = Some (pass_batches g c (cur_epoch c))"
proof (cases "pass_batches g c (cur_epoch c)")
  case Nil
  with assms show ?thesis by (subst drain.simps) (simp add: next_batch_def more_passes_def)
next
  case (Cons b bs)
  let ?c' = "c\<lparr>cur_epoch := Suc (cur_epoch c), cur_pending := bs\<rparr>"
  have nb: "next_batch g c = Some (b, ?c')"
    using assms Cons by (simp add: next_batch_def more_passes_def)
  have "\<not> more_passes ?c'" using assms by (simp add: more_passes_def split: option.splits)
  then have "drain g ?c' [b] = Some (rev [b] @ cur_pending ?c')" by (rule drain_pending)
  with nb Cons show ?thesis by (subst drain.simps) simp
qed


lemma split_input_fn:
  assumes "dataset \<in> {''train'', ''test''}"
    and "newsgroups (dataset @ ''_data'') = Some (Dim X)"
    and "newsgroups (dataset @ ''_target'') = Some (Dim Y)"
  shows "dataset_input_fn newsgroups dataset =
           Inr \<lparr>fn_x = [(''input_data'', Dim X)], fn_y = Dim Y, fn_batch_size = 100,
                fn_num_epochs = (if dataset = ''test'' then Some 1 else None),
                fn_shuffle = (dataset = ''train'')\<rparr>"
  using assms by (auto simp add: dataset_input_fn_def getitem_def batch_size_def)


text \<open>
  The end-to-end scenario of the spec: one pass over the four training rows of the
  synthetic bundle, with shuffling disabled and batch size two, is the two batches of
  the spec, in order.
\<close>

lemma scenario_unshuffled_pass:
  "pass_batches g
     \<lparr>cur_rows = zip [Dim [Item 0, Item 0], Dim [Item 0, Item 1],
                      Dim [Item 1, Item 0], Dim [Item 1, Item (1::int)]]
                     [Item 0, Item 1, Item 1, Item 0],
      cur_batch_size = 2, cur_num_epochs = None, cur_shuffle = False,
      cur_epoch = 0, cur_pending = []\<rparr> 0 =
   [[(Dim [Item 0, Item 0], Item 0), (Dim [Item 0, Item 1], Item 1)],
    [(Dim [Item 1, Item 0], Item 1), (Dim [Item 1, Item 1], Item 0)]]"
  by (simp add: pass_batches_def pass_rows_def chunks.simps)

subsection \<open>The iterators of the two splits\<close>

text \<open>
  Claim C2. For the split \<open>test\<close>, over a bundle whose test labels are aligned with
  its test rows, consuming the iterator to its end returns (the sequence ends), and
  what it returns is one pass: the batches of the stored rows cut every 100 rows,
  whatever the random source is. Put end to end, the batches are the rows of
  \<open>test_data\<close> paired with \<open>test_target\<close>, each once and in stored order, so the
  number of samples is the number of rows.
\<close>

theorem test_iterator_single_ordered_pass:
  assumes "newsgroups ''test_data'' = Some (Dim X)"
    and "newsgroups ''test_target'' = Some (Dim Y)"
    and "length X = length Y"
  shows "\<exists>fn. dataset_input_fn newsgroups ''test'' = Inr fn \<and>
           all_batches g fn = Some (Inr (chunks 100 (zip X Y))) \<and>
           concat (chunks 100 (zip X Y)) = zip X Y \<and>
           map fst (concat (chunks 100 (zip X Y))) = X \<and>
           map snd (concat (chunks 100 (zip X Y))) = Y \<and>
           length (concat (chunks 100 (zip X Y))) = length X"
proof -
  let ?fn = "\<lparr>fn_x = [(''input_data'', Dim X)], fn_y = Dim Y, fn_batch_size = 100,
                fn_num_epochs = Some 1, fn_shuffle = False\<rparr>"
  let ?c = "\<lparr>cur_rows = zip X Y, cur_batch_size = 100, cur_num_epochs = Some 1,
              cur_shuffle = False, cur_epoch = 0, cur_pending = []\<rparr>"
  have "dataset_input_fn newsgroups ''test'' =
          Inr \<lparr>fn_x = [(''input_data'', Dim X)], fn_y = Dim Y, fn_batch_size = 100,
               fn_num_epochs = (if ''test'' = ''test'' then Some 1 else None),
               fn_shuffle = (''test'' = ''train'')\<rparr>"
    using assms(1,2) by (intro split_input_fn) simp_all
  then have fn: "dataset_input_fn newsgroups ''test'' = Inr ?fn" by simp
  have st: "start_iterator ?fn = Inr ?c"
    using assms(3) by (simp add: start_iterator_def)
  have "drain g ?c [] = Some (pass_batches g ?c (cur_epoch ?c))"
    by (rule drain_last_pass) simp_all
  then have dr: "drain g ?c [] = Some (chunks 100 (zip X Y))"
    by (simp add: pass_batches_def pass_rows_def)
  have ab: "all_batches g ?fn = Some (Inr (chunks 100 (zip X Y)))"
    by (simp only: all_batches_def st dr sum.case option.map)
  have cc: "concat (chunks 100 (zip X Y)) = zip X Y"
    by (rule concat_chunks) simp
  from fn ab cc assms(3) show ?thesis
    by (intro exI [of _ ?fn]) simp
qed

theorem test_iterator_single_ordered_pass_witness:
  "synthetic_bundle ''test_data'' =
     Some (Dim [Dim [Item 0, Item 0], Dim [Item 0, Item 1],
                Dim [Item 1, Item 0], Dim [Item 1, Item 1]]) \<and>
   synthetic_bundle ''test_target'' = Some (Dim [Item 0, Item 1, Item 1, Item 0]) \<and>
   (\<exists>fn. dataset_input_fn synthetic_bundle ''test'' = Inr fn \<and>
      all_batches (\<lambda>e i. i) fn =
        Some (Inr (chunks 100
          [(Dim [Item 0, Item 0], Item 0), (Dim [Item 0, Item 1], Item 1),
           (Dim [Item 1, Item 0], Item 1), (Dim [Item 1, Item 1], Item 0)])) \<and>
      concat (chunks 100
          ([(Dim [Item 0, Item 0], Item 0), (Dim [Item 0, Item 1], Item 1),
            (Dim [Item 1, Item 0], Item 1), (Dim [Item 1, Item 1], Item 0)]
           :: int sample list)) =
        [(Dim [Item 0, Item 0], Item 0), (Dim [Item 0, Item 1], Item 1),
         (Dim [Item 1, Item 0], Item 1), (Dim [Item 1, Item 1], Item 0)])"
proof -
  have d: "synthetic_bundle ''test_data'' =
     Some (Dim [Dim [Item 0, Item 0], Dim [Item 0, Item 1],
                Dim [Item 1, Item 0], Dim [Item 1, Item 1]])"
    by (simp add: synthetic_bundle_def)
  have t: "synthetic_bundle ''test_target'' = Some (Dim [Item 0, Item 1, Item 1, Item 0])"
    by (simp add: synthetic_bundle_def)
  from test_iterator_single_ordered_pass [OF d t, of "\<lambda>e i. i"] d t
  show ?thesis by auto
qed

text \<open>
  Claim C3. For the split \<open>train\<close>, over a bundle with at least one training row and
  labels aligned with the rows, the iterator never ends: a request for \<open>k\<close> batches
  gives \<open>k\<close> batches for every \<open>k\<close>, and \<open>steps * 100\<close> samples are there for every
  \<open>steps\<close>. The batches handed out are pass after pass, and every pass holds each
  training row exactly once (the same multiset, the same length). The order of pass
  \<open>e\<close> is the order of the row positions that the shuffle makes of the draws of pass
  \<open>e\<close> alone, a fresh one for each pass. The orders are uniform over the draws: every
  order of the positions comes from some draws, and two draw sequences give the same
  order exactly when draw \<open>j\<close> agrees modulo \<open>j + 1\<close> for every \<open>j\<close> below the row
  count, so each of the orders comes from exactly one of the equally many draw vectors.
\<close>

theorem train_iterator_infinite_shuffled_passes:
  assumes "newsgroups ''train_data'' = Some (Dim X)"
    and "newsgroups ''train_target'' = Some (Dim Y)"
    and "length X = length Y"
    and "X \<noteq> []"
  shows "\<exists>fn c.
           dataset_input_fn newsgroups ''train'' = Inr fn \<and> start_iterator fn = Inr c \<and>
           (\<forall>k. length (fst (pull g k c)) = k) \<and>
           (\<forall>steps. steps * 100 \<le> length (concat (fst (pull g (steps * 100) c)))) \<and>
           (\<forall>k. fst (pull g k c) = take k (concat (map (pass_batches g c) [0 ..< k]))) \<and>
           (\<forall>e. mset (concat (pass_batches g c e)) = mset (zip X Y) \<and>
                length (concat (pass_batches g c e)) = length X \<and>
                concat (pass_batches g c e) =
                  map ((!) (zip X Y)) (shuffle_rows (g e) [0 ..< length X])) \<and>
           (\<forall>p. mset p = mset [0 ..< length X] \<longrightarrow>
                (\<exists>d. shuffle_rows d [0 ..< length X] = p)) \<and>
           (\<forall>d d'. (shuffle_rows d [0 ..< length X] = shuffle_rows d' [0 ..< length X]) =
                   (\<forall>j < length X. d j mod Suc j = d' j mod Suc j))"
proof -
  let ?fn = "\<lparr>fn_x = [(''input_data'', Dim X)], fn_y = Dim Y, fn_batch_size = 100,
                fn_num_epochs = None, fn_shuffle = True\<rparr>"
  let ?c = "\<lparr>cur_rows = zip X Y, cur_batch_size = 100, cur_num_epochs = None,
              cur_shuffle = True, cur_epoch = 0, cur_pending = []\<rparr>"
  have "dataset_input_fn newsgroups ''train'' =
          Inr \<lparr>fn_x = [(''input_data'', Dim X)], fn_y = Dim Y, fn_batch_size = 100,
               fn_num_epochs = (if ''train'' = ''test'' then Some 1 else None),
               fn_shuffle = (''train'' = ''train'')\<rparr>"
    using assms(1,2) by (intro split_input_fn) simp_all
  then have fn: "dataset_input_fn newsgroups ''train'' = Inr ?fn" by simp
  have st: "start_iterator ?fn = Inr ?c"
    using assms(3) by (simp add: start_iterator_def)
  have rows: "zip X Y \<noteq> []" using assms(3,4) by (cases X; cases Y) simp_all
  have lz: "length (zip X Y) = length X" using assms(3) by simp
  have ne: "pass_batches g ?c e \<noteq> []" for e
    using rows by (simp add: pass_batches_Nil)
  have lk: "fst (pull g k ?c) = take k (concat (map (pass_batches g ?c) [0 ..< k]))" for k
    by (simp add: pull_upcoming upcoming_def)
  have en: "k \<le> length (concat (map (pass_batches g ?c) [0 ..< k]))" for k
    using passes_enough [OF ne [of 0], of k 0] by simp
  have nx: "length (fst (pull g k ?c)) = k" for k
    using en [of k] by (simp add: lk)
  have ok: "batches_ok ?c" by (simp add: batches_ok_def)
  have sm: "steps * 100 \<le> length (concat (fst (pull g (steps * 100) ?c)))" for steps
  proof -
    have "\<forall>b \<in> set (fst (pull g (steps * 100) ?c)). 0 < length b"
      using pull_invariant [OF ok, of g "steps * 100"] by simp
    then have "length (fst (pull g (steps * 100) ?c)) \<le>
                 length (concat (fst (pull g (steps * 100) ?c)))"
      by (rule concat_nonempty_length)
    then show ?thesis by (simp only: nx)
  qed
  have cp: "concat (pass_batches g ?c e) = shuffle_rows (g e) (zip X Y)" for e
    by (simp add: pass_batches_def pass_rows_def concat_chunks)
  have ps: "mset (concat (pass_batches g ?c e)) = mset (zip X Y) \<and>
            length (concat (pass_batches g ?c e)) = length X \<and>
            concat (pass_batches g ?c e) =
              map ((!) (zip X Y)) (shuffle_rows (g e) [0 ..< length X])" for e
  proof (intro conjI)
    show "mset (concat (pass_batches g ?c e)) = mset (zip X Y)"
      by (simp only: cp mset_shuffle_rows)
    show "length (concat (pass_batches g ?c e)) = length X"
      by (simp only: cp length_shuffle_rows lz)
    have "shuffle_rows (g e) (zip X Y) =
            map ((!) (zip X Y)) (shuffle_rows (g e) [0 ..< length (zip X Y)])"
      by (rule shuffle_rows_positions)
    then show "concat (pass_batches g ?c e) =
                 map ((!) (zip X Y)) (shuffle_rows (g e) [0 ..< length X])"
      by (simp only: cp lz)
  qed
  have on: "\<forall>p. mset p = mset [0 ..< length X] \<longrightarrow> (\<exists>d. shuffle_rows d [0 ..< length X] = p)"
    using shuffle_rows_onto by blast
  have inj: "(shuffle_rows d [0 ..< length X] = shuffle_rows d' [0 ..< length X]) =
             (\<forall>j < length X. d j mod Suc j = d' j mod Suc j)" for d d'
  proof
    assume "shuffle_rows d [0 ..< length X] = shuffle_rows d' [0 ..< length X]"
    with shuffle_rows_inject [of "[0 ..< length X]" d d']
    show "\<forall>j < length X. d j mod Suc j = d' j mod Suc j" by simp
  next
    assume "\<forall>j < length X. d j mod Suc j = d' j mod Suc j"
    then show "shuffle_rows d [0 ..< length X] = shuffle_rows d' [0 ..< length X]"
      by (intro shuffle_rows_cong) simp
  qed
  have A: "\<forall>k. length (fst (pull g k ?c)) = k" using nx by blast
  have B: "\<forall>steps. steps * 100 \<le> length (concat (fst (pull g (steps * 100) ?c)))"
    using sm by blast
  have C: "\<forall>k. fst (pull g k ?c) = take k (concat (map (pass_batches g ?c) [0 ..< k]))"
    using lk by blast
  have D: "\<forall>e. mset (concat (pass_batches g ?c e)) = mset (zip X Y) \<and>
                length (concat (pass_batches g ?c e)) = length X \<and>
                concat (pass_batches g ?c e) =
                  map ((!) (zip X Y)) (shuffle_rows (g e) [0 ..< length X])"
    using ps by blast
  have E: "\<forall>d d'. (shuffle_rows d [0 ..< length X] = shuffle_rows d' [0 ..< length X]) =
                   (\<forall>j < length X. d j mod Suc j = d' j mod Suc j)"
    using inj by blast
  show ?thesis
    by (intro exI [of _ ?fn] exI [of _ ?c] conjI) (rule fn st A B C D on E)+
qed

theorem train_iterator_infinite_shuffled_passes_witness:
  "synthetic_bundle ''train_data'' =
     Some (Dim [Dim [Item 0, Item 0], Dim [Item 0, Item 1],
                Dim [Item 1, Item 0], Dim [Item 1, Item 1]]) \<and>
   synthetic_bundle ''train_target'' = Some (Dim [Item 0, Item 1, Item 1, Item 0]) \<and>
   (\<exists>fn c.
      dataset_input_fn synthetic_bundle ''train'' = Inr fn \<and> start_iterator fn = Inr c \<and>
      length (fst (pull (\<lambda>e i. e + i) 7 c)) = 7 \<and>
      200 \<le> length (concat (fst (pull (\<lambda>e i. e + i) 200 c))) \<and>
      mset (concat (pass_batches (\<lambda>e i. e + i) c 3)) =
        mset [(Dim [Item 0, Item 0], Item 0), (Dim [Item 0, Item 1], Item 1),
              (Dim [Item 1, Item 0], Item 1), (Dim [Item 1, Item 1], Item 0)])"
proof -
  let ?g = "\<lambda>e i. e + i :: nat"
  let ?X = "[Dim [Item 0, Item 0], Dim [Item 0, Item 1],
             Dim [Item 1, Item 0], Dim [Item 1, Item (1::int)]]"
  let ?Y = "[Item 0, Item 1, Item 1, Item (0::int)]"
  have d: "synthetic_bundle ''train_data'' = Some (Dim ?X)"
    by (simp add: synthetic_bundle_def)
  have t: "synthetic_bundle ''train_target'' = Some (Dim ?Y)"
    by (simp add: synthetic_bundle_def)
  have l: "length ?X = length ?Y" by simp
  have n: "?X \<noteq> []" by simp
  from train_iterator_infinite_shuffled_passes [OF d t l n, of ?g]
  obtain fn c where f: "dataset_input_fn synthetic_bundle ''train'' = Inr fn"
    "start_iterator fn = Inr c"
    and nx: "\<forall>k. length (fst (pull ?g k c)) = k"
    and sm: "\<forall>steps. steps * 100 \<le> length (concat (fst (pull ?g (steps * 100) c)))"
    and ps: "\<forall>e. mset (concat (pass_batches ?g c e)) = mset (zip ?X ?Y)"
    by blast
  have a: "length (fst (pull ?g 7 c)) = 7" using nx by simp
  have b: "200 \<le> length (concat (fst (pull ?g 200 c)))" using sm [rule_format, of 2] by simp
  have m: "mset (concat (pass_batches ?g c 3)) =
        mset [(Dim [Item 0, Item 0], Item 0), (Dim [Item 0, Item 1], Item 1),
              (Dim [Item 1, Item 0], Item 1), (Dim [Item 1, Item 1], Item 0)]"
    using ps [rule_format, of 3] by simp
  show ?thesis
    by (intro conjI exI [of _ fn] exI [of _ c]) (rule d t f a b m)+
qed

text \<open>
  Claim C8. For either split, over a bundle whose labels are aligned with its rows, the
  input function is built with batch size 100 and the iterator keeps that size however
  many batches are requested; no batch it hands out is empty or longer than 100. The
  batches handed out are, in order, the batches of the passes (of the one pass for
  \<open>test\<close>, of pass after pass for \<open>train\<close>). In every pass, shuffled or not, the
  rows are cut into \<open>(n + 99) div 100\<close> batches for \<open>n\<close> rows: each batch but the
  last holds exactly 100 samples, and the last holds 100 when \<open>n\<close> is a multiple of
  100 and the remainder \<open>n mod 100\<close> otherwise.
\<close>

theorem batch_size_fixed_last_batch_shorter:
  assumes "dataset \<in> {''train'', ''test''}"
    and "newsgroups (format_s ''%s_data'' dataset) = Some (Dim X)"
    and "newsgroups (format_s ''%s_target'' dataset) = Some (Dim Y)"
    and "length X = length Y"
  shows "\<exists>fn c.
           dataset_input_fn newsgroups dataset = Inr fn \<and> fn_batch_size fn = 100 \<and>
           start_iterator fn = Inr c \<and> cur_batch_size c = 100 \<and>
           (\<forall>k. cur_batch_size (snd (pull g k c)) = 100 \<and>
                (\<forall>b \<in> set (fst (pull g k c)). 0 < length b \<and> length b \<le> 100)) \<and>
           (\<forall>k. fst (pull g k c) =
                  take k (concat (map (pass_batches g c)
                    [0 ..< (if dataset = ''test'' then 1 else k)]))) \<and>
           (\<forall>e. length (pass_batches g c e) = (length X + 99) div 100 \<and>
                (\<forall>i < length (pass_batches g c e).
                   length (pass_batches g c e ! i) =
                     (if Suc i < length (pass_batches g c e) \<or> length X mod 100 = 0
                      then 100 else length X mod 100)))"
proof -
  let ?fn = "\<lparr>fn_x = [(''input_data'', Dim X)], fn_y = Dim Y, fn_batch_size = 100,
                fn_num_epochs = (if dataset = ''test'' then Some 1 else None),
                fn_shuffle = (dataset = ''train'')\<rparr>"
  let ?c = "\<lparr>cur_rows = zip X Y, cur_batch_size = 100,
              cur_num_epochs = (if dataset = ''test'' then Some 1 else None),
              cur_shuffle = (dataset = ''train''), cur_epoch = 0, cur_pending = []\<rparr>"
  have d: "newsgroups (dataset @ ''_data'') = Some (Dim X)"
    using assms(2) by simp
  have t: "newsgroups (dataset @ ''_target'') = Some (Dim Y)"
    using assms(3) by simp
  have fn: "dataset_input_fn newsgroups dataset = Inr ?fn"
    using assms(1) d t by (rule split_input_fn)
  have st: "start_iterator ?fn = Inr ?c"
    using assms(4) by (simp add: start_iterator_def)
  have ok: "batches_ok ?c" by (simp add: batches_ok_def)
  have pl: "\<forall>k. cur_batch_size (snd (pull g k ?c)) = 100 \<and>
                (\<forall>b \<in> set (fst (pull g k ?c)). 0 < length b \<and> length b \<le> 100)"
    using pull_invariant [OF ok, of g] by simp
  have len: "length (pass_rows g ?c e) = length X" for e
    using assms(4) by (simp add: length_pass_rows)
  have pb: "pass_batches g ?c e = chunks 100 (pass_rows g ?c e)" for e
    by (simp add: pass_batches_def)
  have n: "length (pass_batches g ?c e) = (length X + 99) div 100" for e
    by (simp add: pb length_chunks len)
  have l: "i < length (pass_batches g ?c e) \<Longrightarrow>
             length (pass_batches g ?c e ! i) =
               (if Suc i < length (pass_batches g ?c e) \<or> length X mod 100 = 0
                then 100 else length X mod 100)" for e i
    unfolding pb using length_nth_chunks [of i 100 "pass_rows g ?c e"] by (simp only: len)
  have ps: "\<forall>e. length (pass_batches g ?c e) = (length X + 99) div 100 \<and>
                (\<forall>i < length (pass_batches g ?c e).
                   length (pass_batches g ?c e ! i) =
                     (if Suc i < length (pass_batches g ?c e) \<or> length X mod 100 = 0
                      then 100 else length X mod 100))"
    using n l by blast
  have lk: "\<forall>k. fst (pull g k ?c) =
                  take k (concat (map (pass_batches g ?c)
                    [0 ..< (if dataset = ''test'' then 1 else k)]))"
    by (simp add: pull_upcoming upcoming_def)
  have bs: "cur_batch_size ?c = 100" "fn_batch_size ?fn = 100" by simp_all
  show ?thesis
    apply (rule exI [of _ ?fn])
    apply (rule exI [of _ ?c])
    apply (intro conjI)
          apply (rule fn)
         apply (rule bs(2))
        apply (rule st)
       apply (rule bs(1))
      apply (rule pl)
     apply (rule lk)
    apply (rule ps)
    done
qed


theorem batch_size_fixed_last_batch_shorter_witness:
  "''test'' \<in> {''train'', ''test''} \<and>
   uneven_bundle (format_s ''%s_data'' ''test'') = Some (Dim (replicate 101 (Dim [Item 0, Item 1]))) \<and>
   uneven_bundle (format_s ''%s_target'' ''test'') = Some (Dim (replicate 101 (Item 0))) \<and>
   length (replicate 101 (Dim [Item 0, Item (1::int)])) = length (replicate 101 (Item (0::int))) \<and>
   (\<exists>fn c.
      dataset_input_fn uneven_bundle ''test'' = Inr fn \<and> fn_batch_size fn = 100 \<and>
      start_iterator fn = Inr c \<and> cur_batch_size c = 100 \<and>
      map length (pass_batches (\<lambda>e i. e + i) c 0) = [100, 1] \<and>
      map length (fst (pull (\<lambda>e i. e + i) 5 c)) = [100, 1])"
proof -
  let ?g = "\<lambda>e i. e + i :: nat"
  have s: "''test'' \<in> {''train'', ''test''}" by simp
  have d: "uneven_bundle (format_s ''%s_data'' ''test'') =
             Some (Dim (replicate 101 (Dim [Item 0, Item 1])))"
    by (simp add: uneven_bundle_def)
  have t: "uneven_bundle (format_s ''%s_target'' ''test'') = Some (Dim (replicate 101 (Item 0)))"
    by (simp add: uneven_bundle_def)
  have l: "length (replicate 101 (Dim [Item 0, Item (1::int)])) = length (replicate 101 (Item (0::int)))"
    by simp
  from batch_size_fixed_last_batch_shorter [OF s d t l, of ?g]
  obtain fn c where f: "dataset_input_fn uneven_bundle ''test'' = Inr fn" "fn_batch_size fn = 100"
    "start_iterator fn = Inr c" "cur_batch_size c = 100"
    and lk: "\<forall>k. fst (pull ?g k c) = take k (concat (map (pass_batches ?g c) [0 ..< 1]))"
    and n: "length (pass_batches ?g c 0) = 2"
    and sz: "\<forall>i < length (pass_batches ?g c 0).
               length (pass_batches ?g c 0 ! i) = (if Suc i < length (pass_batches ?g c 0) then 100 else 1)"
    by fastforce
  from n obtain a b where ab: "pass_batches ?g c 0 = [a, b]"
    by (metis (no_types, lifting) One_nat_def Suc_1 length_0_conv length_Suc_conv)
  have "length (pass_batches ?g c 0 ! 0) = 100" using sz [rule_format, of 0] n by simp
  moreover have "length (pass_batches ?g c 0 ! 1) = 1" using sz [rule_format, of 1] n by simp
  ultimately have "length a = 100" "length b = 1" using ab by simp_all
  with ab have m: "map length (pass_batches ?g c 0) = [100, 1]" by simp
  from lk have "fst (pull ?g 5 c) = take 5 (pass_batches ?g c 0)" by simp
  with ab m have p: "map length (fst (pull ?g 5 c)) = [100, 1]" by simp
  show ?thesis
    by (intro conjI exI [of _ fn] exI [of _ c]) (rule s d t l f m p)+
qed

end
